theory Spec2Isabelle
  imports Main "HOL-Library.Sublist"
begin

section \<open>Strings\<close>

text \<open>
  Python \<open>str\<close> values are modelled as \<open>string\<close> (lists of characters). File and
  directory names are single path components; a path below the repository root is the
  list of directory names leading to it together with its final name.
\<close>

definition slash :: char where
  "slash = CHR ''/''"

definition backslash :: char where
  "backslash = CHR 0x5C"

definition newline :: char where
  "newline = CHR 0x0A"

text \<open>\<open>needle in haystack\<close> on Python strings: contiguous occurrence.\<close>

fun startswith :: "string \<Rightarrow> string \<Rightarrow> bool" where
  "startswith s [] = True"
| "startswith [] (p # ps) = False"
| "startswith (c # cs) (p # ps) = (c = p \<and> startswith cs ps)"

fun str_contains :: "string \<Rightarrow> string \<Rightarrow> bool" where
  "str_contains needle [] = (needle = [])"
| "str_contains needle (c # cs) = (startswith (c # cs) needle \<or> str_contains needle cs)"

definition endswith :: "string \<Rightarrow> string \<Rightarrow> bool" where
  "endswith s p = startswith (rev s) (rev p)"

text \<open>\<open>s.strip("/")\<close>: remove every leading and trailing slash.\<close>

definition strip_slash :: "string \<Rightarrow> string" where
  "strip_slash s = rev (dropWhile (\<lambda>c. c = slash) (rev (dropWhile (\<lambda>c. c = slash) s)))"

text \<open>\<open>s.replace("\\", "/")\<close>.\<close>

definition replace_backslash :: "string \<Rightarrow> string" where
  "replace_backslash s = map (\<lambda>c. if c = backslash then slash else c) s"

section \<open>Path filter\<close>

definition EXCLUDED_FILES :: "string set" where
  "EXCLUDED_FILES = {''.env'', ''.env.local'', ''.env.production'', ''.env.development''}"

text \<open>Declared by the program next to \<open>EXCLUDED_FILES\<close>; no function reads it.\<close>

definition EXCLUDED_PATTERNS :: "string set" where
  "EXCLUDED_PATTERNS = {''*.key'', ''*.pem'', ''*.secret'', ''*_key.txt''}"

text \<open>
  \<open>str(path.relative_to(repo_root)).replace("\\", "/")\<close> for the path
  \<open>repo_root / d1 / ... / dn / name\<close>: the components joined by slashes, then every
  backslash turned into a slash.
\<close>

definition path_str :: "string list \<Rightarrow> string \<Rightarrow> string" where
  "path_str parent name = replace_backslash (concat (map (\<lambda>d. d @ [slash]) parent) @ name)"

text \<open>
  The loop over the ignore patterns in \<open>is_ignored\<close>. The patterns are a Python set; the
  list fixes one iteration order (the result does not depend on it, see
  \<open>match_patterns_set\<close>).
\<close>

fun match_patterns :: "string \<Rightarrow> string \<Rightarrow> string list \<Rightarrow> bool" where
  "match_patterns pstr name [] = False"
| "match_patterns pstr name (pattern # rest) =
     (let pattern_clean = strip_slash pattern in
      if str_contains pattern_clean pstr \<or> name = pattern_clean then True
      else if endswith pattern_clean [slash] \<and> startswith pstr pattern_clean then True
      else match_patterns pstr name rest)"

definition is_ignored :: "string list \<Rightarrow> string \<Rightarrow> string list \<Rightarrow> bool" where
  "is_ignored parent name gitignore_patterns =
     (if name \<in> EXCLUDED_FILES then True
      else match_patterns (path_str parent name) name gitignore_patterns)"

section \<open>Tree scanner\<close>

definition TEXT_EXTENSIONS :: "string set" where
  "TEXT_EXTENSIONS = {
     ''.py'', ''.js'', ''.ts'', ''.jsx'', ''.tsx'', ''.go'', ''.rs'', ''.java'', ''.kt'', ''.scala'',
     ''.c'', ''.cpp'', ''.h'', ''.hpp'', ''.cs'', ''.swift'', ''.rb'', ''.php'', ''.pl'', ''.lua'',
     ''.sh'', ''.bash'', ''.zsh'', ''.ps1'', ''.bat'', ''.cmd'',
     ''.html'', ''.htm'', ''.css'', ''.scss'', ''.sass'', ''.less'',
     ''.json'', ''.yaml'', ''.yml'', ''.toml'', ''.ini'', ''.cfg'', ''.conf'',
     ''.xml'', ''.xsl'', ''.xslt'',
     ''.md'', ''.markdown'', ''.rst'', ''.txt'', ''.adoc'',
     ''.sql'', ''.graphql'', ''.gql'',
     ''.dockerfile'', ''.makefile'', ''.cmake''}"

text \<open>
  \<open>str.lower()\<close>, on ASCII letters; every other character is left as it is (names are
  taken to be ASCII where their case matters).
\<close>

definition lower_char :: "char \<Rightarrow> char" where
  "lower_char c =
     (case map_of (zip ''ABCDEFGHIJKLMNOPQRSTUVWXYZ'' ''abcdefghijklmnopqrstuvwxyz'') c of
        None \<Rightarrow> c
      | Some l \<Rightarrow> l)"

definition lower :: "string \<Rightarrow> string" where
  "lower s = map lower_char s"

text \<open>
  \<open>PurePath.suffix\<close>: with \<open>i = name.rfind(".")\<close>, the suffix is \<open>name[i:]\<close> when
  \<open>0 < i < len(name) - 1\<close> and the empty string otherwise.
\<close>

definition rfind_dot :: "string \<Rightarrow> nat option" where
  "rfind_dot name =
     (let k = length (takeWhile (\<lambda>c. c \<noteq> CHR ''.'') (rev name)) in
      if k = length name then None else Some (length name - 1 - k))"

definition path_suffix :: "string \<Rightarrow> string" where
  "path_suffix name =
     (case rfind_dot name of
        None \<Rightarrow> []
      | Some i \<Rightarrow> if 0 < i \<and> i + 1 < length name then drop i name else [])"

text \<open>The extension test of \<open>scan_codebase\<close>: true when the file is skipped.\<close>

definition not_text_file :: "string \<Rightarrow> bool" where
  "not_text_file name \<longleftrightarrow>
     lower (path_suffix name) \<notin> TEXT_EXTENSIONS \<and> lower name \<notin> {''dockerfile'', ''makefile''}"

text \<open>
  The directory tree below the repository root, as \<open>os.walk\<close> sees it: the entries of a
  directory in listing order, each a directory with its own entries or a file with the
  outcome of \<open>read_text(encoding="utf-8")\<close> on it (the decoded text, or the exception
  raised when the file cannot be opened or decoded).
\<close>

datatype read_result = Content string | ReadError string

datatype fs_entry = File string read_result | Dir string "fs_entry list"

record file_record =
  path :: string
  content :: string

text \<open>The body of the loop over the files of one directory; \<open>None\<close> when the file is skipped.\<close>

definition scan_file :: "string list \<Rightarrow> string list \<Rightarrow> string \<Rightarrow> read_result \<Rightarrow> file_record option" where
  "scan_file gitignore_patterns root_path file_name rd =
     (if is_ignored root_path file_name gitignore_patterns then None
      else if not_text_file file_name then None
      else (case rd of
              Content c \<Rightarrow> Some \<lparr>path = path_str root_path file_name, content = c\<rparr>
            | ReadError e \<Rightarrow> None))"

fun scan_files :: "string list \<Rightarrow> string list \<Rightarrow> fs_entry list \<Rightarrow> file_record list" where
  "scan_files pats root_path [] = []"
| "scan_files pats root_path (File n rd # es) =
     (case scan_file pats root_path n rd of
        None \<Rightarrow> scan_files pats root_path es
      | Some r \<Rightarrow> r # scan_files pats root_path es)"
| "scan_files pats root_path (Dir d sub # es) = scan_files pats root_path es"

text \<open>
  \<open>os.walk\<close>, top down, with the loop body of \<open>scan_codebase\<close>: the files of a directory
  first, then each subdirectory that \<open>is_ignored\<close> does not remove from \<open>dirs\<close>, in
  listing order and to its full depth before the next one.
\<close>

fun walk_subdirs :: "string list \<Rightarrow> string list \<Rightarrow> fs_entry list \<Rightarrow> file_record list" where
  "walk_subdirs pats root_path [] = []"
| "walk_subdirs pats root_path (File n rd # es) = walk_subdirs pats root_path es"
| "walk_subdirs pats root_path (Dir d sub # es) =
     (if is_ignored root_path d pats then []
      else scan_files pats (root_path @ [d]) sub @ walk_subdirs pats (root_path @ [d]) sub)
     @ walk_subdirs pats root_path es"

definition walk :: "string list \<Rightarrow> string list \<Rightarrow> fs_entry list \<Rightarrow> file_record list" where
  "walk pats root_path es = scan_files pats root_path es @ walk_subdirs pats root_path es"

definition BUILTIN_IGNORED :: "string list" where
  "BUILTIN_IGNORED =
     [''node_modules'', ''.git'', ''__pycache__'', ''.venv'', ''venv'', ''dist'', ''build'']"

text \<open>
  \<open>scan_codebase\<close>; \<open>loaded\<close> is what \<open>load_gitignore_patterns(repo_root)\<close> returned and
  \<open>es\<close> the entries of the repository root.
\<close>

definition scan_codebase :: "string list \<Rightarrow> fs_entry list \<Rightarrow> file_record list" where
  "scan_codebase loaded es = walk (loaded @ BUILTIN_IGNORED) [] es"

section \<open>Context assembler\<close>

definition format_record :: "file_record \<Rightarrow> string" where
  "format_record r = ''--- FILE: '' @ path r @ '' ---'' @ [newline] @ content r @ [newline]"

text \<open>\<open>"\n".join(parts)\<close>.\<close>

fun join_newline :: "string list \<Rightarrow> string" where
  "join_newline [] = []"
| "join_newline [x] = x"
| "join_newline (x # y # zs) = x @ [newline] @ join_newline (y # zs)"

definition build_context :: "file_record list \<Rightarrow> string" where
  "build_context files_data = join_newline (map format_record files_data)"

section \<open>Credential resolver\<close>

text \<open>
  White space as \<open>str.strip()\<close> and the regular expression class \<open>\s\<close> see it, among
  the characters below 256.
\<close>

definition is_space :: "char \<Rightarrow> bool" where
  "is_space c \<longleftrightarrow> c \<in> set [CHR 0x09, CHR 0x0A, CHR 0x0B, CHR 0x0C, CHR 0x0D,
                             CHR 0x1C, CHR 0x1D, CHR 0x1E, CHR 0x1F, CHR 0x20, CHR 0x85, CHR 0xA0]"

definition strip :: "string \<Rightarrow> string" where
  "strip s = rev (dropWhile is_space (rev (dropWhile is_space s)))"

definition is_quote :: "char \<Rightarrow> bool" where
  "is_quote c \<longleftrightarrow> c = CHR 0x22 \<or> c = CHR 0x27"

definition KEY_NAME :: string where
  "KEY_NAME = ''GEMINI_API_KEY''"

text \<open>
  \<open>re.match\<close> of a stripped line against
  \<^verbatim>\<open>^GEMINI_API_KEY\s*=\s*(?:["'])(.*?)(?:["'])$|^GEMINI_API_KEY\s*=\s*(.*?)$\<close>:
  \<open>None\<close> when the line does not match, otherwise groups 1 and 2. The first alternative
  matches when the value starts and ends with a quote character (two characters at
  least) and captures what lies between them; otherwise the second captures the value.
\<close>

definition match_line :: "string \<Rightarrow> (string option \<times> string option) option" where
  "match_line line =
     (if startswith line KEY_NAME then
        (case dropWhile is_space (drop (length KEY_NAME) line) of
           [] \<Rightarrow> None
         | c # r \<Rightarrow>
             if c \<noteq> CHR ''='' then None
             else (let v = dropWhile is_space r in
                   if 2 \<le> length v \<and> is_quote (hd v) \<and> is_quote (last v)
                   then Some (Some (butlast (tl v)), None)
                   else Some (None, Some v)))
      else None)"

text \<open>\<open>match.group(1) or match.group(2)\<close>: the first operand if it is a non-empty string.\<close>

definition group_or :: "string option \<Rightarrow> string option \<Rightarrow> string option" where
  "group_or g1 g2 = (case g1 of None \<Rightarrow> g2 | Some s \<Rightarrow> if s \<noteq> [] then Some s else g2)"

text \<open>
  The loop over the lines of one \<open>.env\<close> file. Assigning \<open>None\<close> to an entry of
  \<open>os.environ\<close> raises \<open>TypeError\<close>, which leaves the loop.
\<close>

datatype file_outcome = NotFound | SetKey string | RaisedTypeError

fun scan_lines :: "string list \<Rightarrow> file_outcome" where
  "scan_lines [] = NotFound"
| "scan_lines (l # ls) =
     (let line = strip l in
      if line = [] \<or> startswith line ''#'' then scan_lines ls
      else (case match_line line of
              None \<Rightarrow> scan_lines ls
            | Some (g1, g2) \<Rightarrow>
                (case group_or g1 g2 of
                   None \<Rightarrow> RaisedTypeError
                 | Some key \<Rightarrow> SetKey key)))"

text \<open>
  The \<open>.env\<close> file of one directory: absent, present but \<open>read_text\<close> raises, or
  present with \<open>content.splitlines()\<close> as given.
\<close>

datatype env_file = NoFile | Unreadable | Lines "string list"

text \<open>What the \<open>try\<close> block does for one directory: the key it stores, if any.\<close>

definition try_env_file :: "env_file \<Rightarrow> string option" where
  "try_env_file f =
     (case f of
        NoFile \<Rightarrow> None
      | Unreadable \<Rightarrow> None
      | Lines ls \<Rightarrow> (case scan_lines ls of SetKey key \<Rightarrow> Some key | NotFound \<Rightarrow> None
                     | RaisedTypeError \<Rightarrow> None))"

text \<open>
  The \<open>for _ in range(n)\<close> loop of \<open>load_env_file\<close> over the chain of directories from
  the script's own directory (first) to the filesystem root (last), which is its own
  parent.
\<close>

fun search_env :: "nat \<Rightarrow> env_file list \<Rightarrow> string option" where
  "search_env 0 chain = None"
| "search_env (Suc n) [] = None"
| "search_env (Suc n) (d # ds) =
     (case try_env_file d of
        Some key \<Rightarrow> Some key
      | None \<Rightarrow> if ds = [] then None else search_env n ds)"

text \<open>\<open>load_env_file\<close>: the value of the environment variable afterwards.\<close>

definition load_env_file :: "string option \<Rightarrow> env_file list \<Rightarrow> string option" where
  "load_env_file env chain = (case search_env 6 chain of None \<Rightarrow> env | Some key \<Rightarrow> Some key)"

text \<open>
  The two ways in which the resolver and the orchestrator end the process: no
  credential, and no candidate model left (with the last exception captured, if any).
\<close>

datatype fatal = ConfigurationError | GenerationError "string option"

text \<open>Truth value of \<open>os.environ.get(...)\<close>: set and not empty.\<close>

definition truthy :: "string option \<Rightarrow> bool" where
  "truthy v = (case v of None \<Rightarrow> False | Some s \<Rightarrow> s \<noteq> [])"

text \<open>\<open>get_api_key\<close>: the environment variable afterwards, and the key or \<open>sys.exit(1)\<close>.\<close>

definition get_api_key :: "string option \<Rightarrow> env_file list \<Rightarrow> string option \<times> (fatal + string)" where
  "get_api_key env chain =
     (let env' = (if \<not> truthy env then load_env_file env chain else env) in
      (env', case env' of
               None \<Rightarrow> Inl ConfigurationError
             | Some api_key \<Rightarrow> if api_key = [] then Inl ConfigurationError else Inr api_key))"

section \<open>Generation orchestrator\<close>

definition PRIMARY_MODEL :: string where
  "PRIMARY_MODEL = ''gemini-3-pro-preview''"

definition FALLBACK_MODEL :: string where
  "FALLBACK_MODEL = ''gemini-2.0-flash-exp''"

text \<open>
  One call of \<open>client.models.generate_content\<close>: it returns a response whose \<open>text\<close> is
  a string or \<open>None\<close>, or it raises. The backend is a function of the models already
  requested in this invocation and of the model requested now, so that it may answer
  a repeated request differently.
\<close>

datatype response = Response "string option" | Raises string

type_synonym backend = "string list \<Rightarrow> string \<Rightarrow> response"

definition models_to_try :: "string option \<Rightarrow> string list" where
  "models_to_try model_name =
     (if truthy model_name then (case model_name of Some m \<Rightarrow> [m] | None \<Rightarrow> [])
      else [PRIMARY_MODEL, FALLBACK_MODEL])"

text \<open>
  The loop over \<open>models_to_try\<close>. \<open>sent\<close> lists the models requested so far, in order,
  \<open>last_exception\<close> is the variable of that name. The result is the full list of
  requests together with the returned text or the fatal exit.
\<close>

fun try_models :: "backend \<Rightarrow> string list \<Rightarrow> string option \<Rightarrow> string list \<Rightarrow> string list \<times> (fatal + string)" where
  "try_models be sent last_exception [] = (sent, Inl (GenerationError last_exception))"
| "try_models be sent last_exception (model # rest) =
     (case be sent model of
        Raises e \<Rightarrow> try_models be (sent @ [model]) (Some e) rest
      | Response t \<Rightarrow>
          if truthy t then (sent @ [model], Inr (strip (case t of Some s \<Rightarrow> s | None \<Rightarrow> [])))
          else try_models be (sent @ [model]) last_exception rest)"

text \<open>
  \<open>generate_documentation\<close>. The prompt and the configuration are the same for every
  request of one invocation, so a request is identified by its model.
\<close>

definition generate_documentation ::
  "string option \<Rightarrow> env_file list \<Rightarrow> backend \<Rightarrow> string option \<Rightarrow> string list \<times> (fatal + string)" where
  "generate_documentation env chain be model_name =
     (case snd (get_api_key env chain) of
        Inl err \<Rightarrow> ([], Inl err)
      | Inr api_key \<Rightarrow> try_models be [] None (models_to_try model_name))"

text \<open>
  \<open>main\<close> after argument parsing: the exit status and the text written to the output
  file, if any.
\<close>

record run_result =
  exit_code :: nat
  output_file :: "string option"

definition main ::
  "bool \<Rightarrow> string list \<Rightarrow> fs_entry list \<Rightarrow> string option \<Rightarrow> env_file list \<Rightarrow> backend \<Rightarrow> string option
     \<Rightarrow> run_result" where
  "main root_exists loaded es env chain be model_name =
     (if \<not> root_exists then \<lparr>exit_code = 1, output_file = None\<rparr>
      else (let files_data = scan_codebase loaded es in
            if files_data = [] then \<lparr>exit_code = 1, output_file = None\<rparr>
            else (case snd (generate_documentation env chain be model_name) of
                    Inl err \<Rightarrow> \<lparr>exit_code = 1, output_file = None\<rparr>
                  | Inr documentation \<Rightarrow> \<lparr>exit_code = 0, output_file = Some documentation\<rparr>)))"

section \<open>Predicates used to state the properties\<close>

text \<open>
  A name without a slash or a backslash. No file name holds a slash; on Windows none
  holds a backslash either, on POSIX systems a name may.
\<close>

definition valid_name :: "string \<Rightarrow> bool" where
  "valid_name n \<longleftrightarrow> slash \<notin> set n \<and> backslash \<notin> set n"

fun names_ok :: "fs_entry list \<Rightarrow> bool" where
  "names_ok [] = True"
| "names_ok (File n rd # es) = (valid_name n \<and> names_ok es)"
| "names_ok (Dir d sub # es) = (valid_name d \<and> names_ok sub \<and> names_ok es)"

definition join_dirs :: "string list \<Rightarrow> string" where
  "join_dirs ds = concat (map (\<lambda>d. d @ [slash]) ds)"

text \<open>
  No directory on the way \<open>root / d1 / ... / dn\<close> below \<open>root\<close> is ignored: the walk
  descends through all of them.
\<close>

definition unpruned :: "string list \<Rightarrow> string list \<Rightarrow> string list \<Rightarrow> bool" where
  "unpruned pats root ds \<longleftrightarrow>
     list_all (\<lambda>k. \<not> is_ignored (root @ take k ds) (ds ! k) pats) [0..<length ds]"

text \<open>
  The start of a delimiter line, the delimiter line of a path, and the records for
  which the assembled context can be taken apart again: the path holds no newline and
  the content holds no newline directly followed by the start of a delimiter line.
\<close>

definition FILE_MARK :: string where
  "FILE_MARK = ''--- FILE: ''"

definition header :: "string \<Rightarrow> string" where
  "header p = FILE_MARK @ p @ '' ---'' @ [newline]"

definition clean_record :: "file_record \<Rightarrow> bool" where
  "clean_record r \<longleftrightarrow> newline \<notin> set (path r) \<and> \<not> str_contains (newline # FILE_MARK) (content r)"

text \<open>What follows the text of the first record in the context of a list of records.\<close>

definition ctx_tail :: "file_record list \<Rightarrow> string" where
  "ctx_tail rs = (if rs = [] then [] else newline # build_context rs)"

text \<open>
  A response with non-empty text; the text of a response; the response of the \<open>i\<close>-th
  candidate of \<open>ms\<close> when the candidates are asked in turn after the requests \<open>sent\<close>;
  the errors raised by the candidates in that order, and the last of them.
\<close>

definition succeeds :: "response \<Rightarrow> bool" where
  "succeeds resp = (case resp of Response t \<Rightarrow> truthy t | Raises e \<Rightarrow> False)"

definition response_text :: "response \<Rightarrow> string" where
  "response_text resp = (case resp of Response (Some s) \<Rightarrow> s | Response None \<Rightarrow> [] | Raises e \<Rightarrow> [])"

definition outcome :: "backend \<Rightarrow> string list \<Rightarrow> string list \<Rightarrow> nat \<Rightarrow> response" where
  "outcome be sent ms i = be (sent @ take i ms) (ms ! i)"

fun captured_errors :: "backend \<Rightarrow> string list \<Rightarrow> string list \<Rightarrow> string list" where
  "captured_errors be sent [] = []"
| "captured_errors be sent (m # ms) =
     (case be sent m of Raises e \<Rightarrow> [e] | Response t \<Rightarrow> []) @ captured_errors be (sent @ [m]) ms"

definition last_captured :: "string option \<Rightarrow> string list \<Rightarrow> string option" where
  "last_captured before errs = (if errs = [] then before else Some (last errs))"

text \<open>Two backends on which the orchestrator is run below.\<close>

definition demo_backend :: backend where
  "demo_backend sent m =
     (if m = ''A'' then Raises ''503'' else Response (Some (''Guide'' @ [newline])))"

definition failing_backend :: backend where
  "failing_backend sent m = (if m = PRIMARY_MODEL then Raises ''quota'' else Response None)"

text \<open>
  Directory chains on which the credential resolver is run below: the script's
  directory holds a \<open>.env\<close> file whose first line assigns the empty value, quoted in the
  first chain and unquoted in the second, and its parent holds another \<open>.env\<close> file.
\<close>

definition quoted_empty_line :: string where
  "quoted_empty_line = ''GEMINI_API_KEY='' @ [CHR 0x22, CHR 0x22]"

definition env_chain :: "env_file list" where
  "env_chain =
     [Lines [quoted_empty_line, ''GEMINI_API_KEY=abc''],
      Lines [''GEMINI_API_KEY=xyz'']]"

definition env_chain_unquoted :: "env_file list" where
  "env_chain_unquoted =
     [Lines [''GEMINI_API_KEY='', ''GEMINI_API_KEY=abc''],
      Lines [''GEMINI_API_KEY=xyz'']]"

text \<open>Two small repositories on which the scanner is run below.\<close>

definition demo_tree :: "fs_entry list" where
  "demo_tree =
     [File ''app.py'' (Content ''print(1)''),
      Dir ''node_modules'' [File ''x.js'' (Content ''y'')],
      Dir ''src'' [File ''m.py'' (Content ''z'')]]"

definition backslash_tree :: "fs_entry list" where
  "backslash_tree =
     [Dir ''.env'' [File ''a.py'' (Content ''x'')],
      Dir (''.env'' @ [backslash] @ ''cfg'') [File ''b.py'' (Content ''y'')]]"

section \<open>Properties of the string functions\<close>

lemma startswith_prefix: "startswith s p \<longleftrightarrow> prefix p s"
  by (induction s p rule: startswith.induct) auto

lemma str_contains_sublist: "str_contains n h \<longleftrightarrow> sublist n h"
  by (induction h) (auto simp: startswith_prefix sublist_Cons_right)

lemma str_contains_iff: "str_contains n h \<longleftrightarrow> (\<exists>a b. h = a @ n @ b)"
  by (simp add: str_contains_sublist sublist_def)

lemma endswith_suffix: "endswith s p \<longleftrightarrow> suffix p s"
  by (simp add: endswith_def startswith_prefix suffix_to_prefix)

lemma strip_slash_decomp:
  "\<exists>a b. p = a @ strip_slash p @ b \<and> set a \<subseteq> {slash} \<and> set b \<subseteq> {slash}"
proof -
  let ?l = "takeWhile (\<lambda>c. c = slash) p"
  let ?m = "dropWhile (\<lambda>c. c = slash) p"
  let ?r = "takeWhile (\<lambda>c. c = slash) (rev ?m)"
  have 1: "p = ?l @ ?m" by simp
  have "rev ?m = ?r @ dropWhile (\<lambda>c. c = slash) (rev ?m)" by simp
  then have "?m = rev (dropWhile (\<lambda>c. c = slash) (rev ?m)) @ rev ?r"
    by (metis rev_append rev_rev_ident)
  then have 2: "?m = strip_slash p @ rev ?r"
    by (simp add: strip_slash_def)
  have 3: "set ?l \<subseteq> {slash}"
    using set_takeWhileD by fastforce
  have 4: "set (rev ?r) \<subseteq> {slash}"
    using set_takeWhileD by fastforce
  from 1 2 have "p = ?l @ strip_slash p @ rev ?r" by simp
  with 3 4 show ?thesis by blast
qed

lemma strip_slash_not_endswith: "\<not> endswith (strip_slash p) [slash]"
proof
  assume "endswith (strip_slash p) [slash]"
  then obtain u where u: "strip_slash p = u @ [slash]"
    by (auto simp: endswith_suffix suffix_def)
  then have "rev (strip_slash p) = slash # rev u" by simp
  then have "dropWhile (\<lambda>c. c = slash) (rev (dropWhile (\<lambda>c. c = slash) p)) = slash # rev u"
    by (simp add: strip_slash_def)
  then show False
    by (metis (mono_tags, lifting) hd_dropWhile list.sel(1) list.distinct(1))
qed

lemma match_patterns_iff:
  "match_patterns pstr name pats \<longleftrightarrow>
     (\<exists>p \<in> set pats. str_contains (strip_slash p) pstr \<or> name = strip_slash p)"
  by (induction pats) (auto simp: Let_def strip_slash_not_endswith)

lemma match_patterns_set:
  "set pats = set pats' \<Longrightarrow> match_patterns pstr name pats = match_patterns pstr name pats'"
  by (simp add: match_patterns_iff)

lemma strip_build: "strip_slash ''build/'' = ''build''"
  by (simp add: strip_slash_def slash_def)

lemma raw_prefix_sublist:
  assumes "prefix p s" shows "sublist (strip_slash p) s"
proof -
  obtain a b where "p = a @ strip_slash p @ b" using strip_slash_decomp by blast
  moreover obtain r where "s = p @ r" using assms by (auto simp: prefix_def)
  ultimately have "s = a @ strip_slash p @ (b @ r)" by (metis append.assoc)
  then show ?thesis unfolding sublist_def by blast
qed

section \<open>Path filter: sensitive names and ignore patterns\<close>

text \<open>
  Claim C1. A path whose final name is one of the hard-coded sensitive file names is
  ignored whatever its parent directories and whatever ignore patterns are supplied,
  the empty set included: the test on the name comes first in \<open>is_ignored\<close> and does not
  read the patterns.
\<close>

theorem sensitive_name_always_ignored:
  "name \<in> EXCLUDED_FILES \<Longrightarrow> is_ignored parent name pats"
  by (simp add: is_ignored_def)

theorem sensitive_name_always_ignored_witness:
  "''.env.local'' \<in> EXCLUDED_FILES \<and> is_ignored [''config'', ''prod''] ''.env.local'' []
     \<and> is_ignored [] ''.env.local'' [''!.env.local'']"
proof -
  have h: "''.env.local'' \<in> EXCLUDED_FILES" by (simp add: EXCLUDED_FILES_def)
  show ?thesis
    using h sensitive_name_always_ignored [OF h, of "[''config'', ''prod'']" "[]"]
      sensitive_name_always_ignored [OF h, of "[]" "[''!.env.local'']"]
    by simp
qed

text \<open>
  Claim C3. The pattern loop of \<open>is_ignored\<close> succeeds exactly when some pattern, trimmed
  of leading and trailing slashes, occurs in the normalised relative path, or equals the
  final name, or ends with a slash and is a prefix of the relative path. The third
  alternative is stated for the trimmed pattern (as the code tests it) and for the raw
  pattern; in both readings it is subsumed by the substring test. With the pattern
  \<open>build/\<close>, every path starting with \<open>build/\<close> is ignored, and so is
  \<open>build-tools/readme.md\<close>.
\<close>

theorem ignore_pattern_rule:
  "(match_patterns (path_str parent name) name pats \<longleftrightarrow>
      (\<exists>p \<in> set pats.
          sublist (strip_slash p) (path_str parent name)
        \<or> name = strip_slash p
        \<or> (suffix [slash] (strip_slash p) \<and> prefix (strip_slash p) (path_str parent name))))
   \<and> (match_patterns (path_str parent name) name pats \<longleftrightarrow>
      (\<exists>p \<in> set pats.
          sublist (strip_slash p) (path_str parent name)
        \<or> name = strip_slash p
        \<or> (suffix [slash] p \<and> prefix p (path_str parent name))))
   \<and> (''build/'' \<in> set pats \<and> prefix ''build/'' (path_str parent name)
        \<longrightarrow> is_ignored parent name pats)
   \<and> is_ignored [''build-tools''] ''readme.md'' [''build/'']"
proof (intro conjI)
  let ?s = "path_str parent name"
  show "match_patterns ?s name pats \<longleftrightarrow>
      (\<exists>p \<in> set pats. sublist (strip_slash p) ?s \<or> name = strip_slash p
        \<or> (suffix [slash] (strip_slash p) \<and> prefix (strip_slash p) ?s))"
    using strip_slash_not_endswith
    by (auto simp: match_patterns_iff str_contains_sublist endswith_suffix)
  show "match_patterns ?s name pats \<longleftrightarrow>
      (\<exists>p \<in> set pats. sublist (strip_slash p) ?s \<or> name = strip_slash p
        \<or> (suffix [slash] p \<and> prefix p ?s))"
    using raw_prefix_sublist
    by (auto simp: match_patterns_iff str_contains_sublist)
  show "''build/'' \<in> set pats \<and> prefix ''build/'' ?s \<longrightarrow> is_ignored parent name pats"
  proof
    assume a: "''build/'' \<in> set pats \<and> prefix ''build/'' ?s"
    then have "sublist (strip_slash ''build/'') ?s" using raw_prefix_sublist by blast
    with a have "match_patterns ?s name pats"
      by (auto simp: match_patterns_iff str_contains_sublist)
    then show "is_ignored parent name pats" by (simp add: is_ignored_def)
  qed
  show "is_ignored [''build-tools''] ''readme.md'' [''build/'']"
    by (simp add: is_ignored_def EXCLUDED_FILES_def path_str_def replace_backslash_def
        strip_build slash_def backslash_def)
qed

theorem ignore_pattern_rule_witness:
  "''build/'' \<in> set [''build/'', ''*.log''] \<and> prefix ''build/'' (path_str [''build'', ''out''] ''main.js'')
   \<and> is_ignored [''build'', ''out''] ''main.js'' [''build/'', ''*.log'']
   \<and> match_patterns (path_str [''src''] ''rebuild.py'') ''rebuild.py'' [''build/'']"
proof -
  have p: "path_str [''build'', ''out''] ''main.js'' = ''build/out/main.js''"
    by (simp add: path_str_def replace_backslash_def slash_def backslash_def)
  have q: "path_str [''src''] ''rebuild.py'' = ''src/rebuild.py''"
    by (simp add: path_str_def replace_backslash_def slash_def backslash_def)
  have s: "sublist ''build'' ''src/rebuild.py''"
    by (simp add: sublist_Cons_right)
  show ?thesis
    using ignore_pattern_rule [of "[''build'', ''out'']" "''main.js''" "[''build/'', ''*.log'']"]
      ignore_pattern_rule [of "[''src'']" "''rebuild.py''" "[''build/'']"] s
    by (simp add: p q strip_build)
qed

section \<open>Tree scanner: files that are skipped\<close>

lemma scan_files_append:
  "scan_files pats root (es1 @ es2) = scan_files pats root es1 @ scan_files pats root es2"
  by (induction pats root es1 rule: scan_files.induct) (auto split: option.splits)

lemma walk_subdirs_append:
  "walk_subdirs pats root (es1 @ es2) = walk_subdirs pats root es1 @ walk_subdirs pats root es2"
  by (induction pats root es1 rule: walk_subdirs.induct) auto

lemma walk_drop_file:
  assumes "scan_file pats root name rd = None"
  shows "walk pats root (es1 @ File name rd # es2) = walk pats root (es1 @ es2)"
  using assms by (simp add: walk_def scan_files_append walk_subdirs_append)

text \<open>
  Claim C4. A file whose extension, in lower case, is not in the extension allowlist and
  whose name, in lower case, is neither \<open>dockerfile\<close> nor \<open>makefile\<close> yields no record,
  whatever its directory, the patterns and its content: the scan of any directory
  listing that holds it equals the scan of the listing without it.
\<close>

theorem non_text_file_never_recorded:
  assumes "lower (path_suffix name) \<notin> TEXT_EXTENSIONS"
    and "lower name \<notin> {''dockerfile'', ''makefile''}"
  shows "scan_file pats root name rd = None
       \<and> walk pats root (es1 @ File name rd # es2) = walk pats root (es1 @ es2)
       \<and> scan_codebase loaded (es1 @ File name rd # es2) = scan_codebase loaded (es1 @ es2)"
proof -
  have n: "scan_file pats' root' name rd = None" for pats' root'
    using assms by (simp add: scan_file_def not_text_file_def)
  show ?thesis
    using n walk_drop_file [OF n] by (simp add: scan_codebase_def)
qed

lemma suffix_png: "path_suffix ''logo.PNG'' = ''.PNG''"
  by (simp add: path_suffix_def rfind_dot_def)

lemma lower_png: "lower ''.PNG'' = ''.png''" "lower ''logo.PNG'' = ''logo.png''"
  by (simp_all add: lower_def lower_char_def)

theorem non_text_file_never_recorded_witness:
  "lower (path_suffix ''logo.PNG'') \<notin> TEXT_EXTENSIONS
   \<and> lower ''logo.PNG'' \<notin> {''dockerfile'', ''makefile''}
   \<and> scan_file [] [''assets''] ''logo.PNG'' (Content ''x'') = None
   \<and> scan_codebase [] [File ''logo.PNG'' (Content ''x'')] = scan_codebase [] []"
proof -
  have a: "lower (path_suffix ''logo.PNG'') \<notin> TEXT_EXTENSIONS"
    by (simp add: suffix_png lower_png TEXT_EXTENSIONS_def)
  have b: "lower ''logo.PNG'' \<notin> {''dockerfile'', ''makefile''}"
    by (simp add: lower_png)
  show ?thesis
    using a b non_text_file_never_recorded [OF a b, of "[]" "[''assets'']" "Content ''x''" "[]" "[]" "[]"]
    by simp
qed

text \<open>
  Claim C8. A file on which \<open>read_text\<close> raises is skipped and the scan goes on: it
  yields no record, and the scan of any directory listing that holds it is the scan of
  the listing without it. \<open>scan_codebase\<close> is a total function into lists of records, so
  the exception never leaves it.
\<close>

theorem unreadable_file_skipped:
  "scan_file pats root name (ReadError e) = None
   \<and> walk pats root (es1 @ File name (ReadError e) # es2) = walk pats root (es1 @ es2)
   \<and> scan_codebase loaded (es1 @ File name (ReadError e) # es2) = scan_codebase loaded (es1 @ es2)"
proof -
  have n: "scan_file pats' root' name (ReadError e) = None" for pats' root'
    by (simp add: scan_file_def)
  show ?thesis
    using n walk_drop_file [OF n] by (simp add: scan_codebase_def)
qed

lemma api_key_txt_text: "\<not> not_text_file ''api_key.txt''"
  by (simp add: not_text_file_def path_suffix_def rfind_dot_def lower_def lower_char_def
      TEXT_EXTENSIONS_def)

lemma api_key_not_ignored: "\<not> is_ignored [] ''api_key.txt'' BUILTIN_IGNORED"
  by (simp add: is_ignored_def EXCLUDED_FILES_def BUILTIN_IGNORED_def path_str_def
      replace_backslash_def strip_slash_def slash_def backslash_def)

lemma secret_key_not_text: "not_text_file ''secret.key''"
  by (simp add: not_text_file_def path_suffix_def rfind_dot_def lower_def lower_char_def
      TEXT_EXTENSIONS_def)

text \<open>
  Claim C10. The wildcard set \<open>EXCLUDED_PATTERNS\<close> takes no part in filtering: a readable
  file \<open>api_key.txt\<close> at the root, with no ignore file, is recorded with its full
  content. For a readable file that \<open>is_ignored\<close> lets through, only the extension test
  decides; \<open>secret.key\<close> is dropped by that test.
\<close>

theorem wildcard_patterns_not_applied:
  "scan_codebase [] [File ''api_key.txt'' (Content c)] = [\<lparr>path = ''api_key.txt'', content = c\<rparr>]
   \<and> scan_codebase [] [File ''secret.key'' (Content c)] = []
   \<and> (\<not> is_ignored root name pats \<longrightarrow>
        scan_file pats root name (Content c) =
          (if not_text_file name then None else Some \<lparr>path = path_str root name, content = c\<rparr>))"
  using api_key_txt_text api_key_not_ignored secret_key_not_text
  by (simp add: scan_codebase_def walk_def scan_file_def path_str_def replace_backslash_def
      backslash_def)

lemma server_key_txt_text: "\<not> not_text_file ''server_key.txt''"
  by (simp add: not_text_file_def path_suffix_def rfind_dot_def lower_def lower_char_def
      TEXT_EXTENSIONS_def)

lemma server_key_not_ignored: "\<not> is_ignored [''certs''] ''server_key.txt'' [''*_key.txt'']"
  by (simp add: is_ignored_def EXCLUDED_FILES_def path_str_def
      replace_backslash_def strip_slash_def slash_def backslash_def)

theorem wildcard_patterns_not_applied_witness:
  "\<not> is_ignored [''certs''] ''server_key.txt'' [''*_key.txt'']
   \<and> scan_file [''*_key.txt''] [''certs''] ''server_key.txt'' (Content ''s3cr3t'')
       = Some \<lparr>path = ''certs/server_key.txt'', content = ''s3cr3t''\<rparr>"
proof -
  have p: "path_str [''certs''] ''server_key.txt'' = ''certs/server_key.txt''"
    by (simp add: path_str_def replace_backslash_def slash_def backslash_def)
  show ?thesis
    using server_key_not_ignored server_key_txt_text
      wildcard_patterns_not_applied [of "''s3cr3t''" "[''certs'']" "''server_key.txt''" "[''*_key.txt'']"]
    by (simp add: p)
qed

section \<open>Tree scanner: pruning\<close>

lemma sep_prefix:
  "x \<notin> set a \<Longrightarrow> x \<notin> set b \<Longrightarrow> prefix (a @ x # u) (b @ x # v) \<Longrightarrow> a = b \<and> prefix u v"
proof (induction a arbitrary: b)
  case Nil
  then show ?case by (cases b) auto
next
  case (Cons c a)
  then show ?case by (cases b) auto
qed

lemma join_dirs_Cons: "join_dirs (d # ds) = d @ slash # join_dirs ds"
  by (simp add: join_dirs_def)

lemma join_dirs_Nil: "join_dirs [] = []"
  by (simp add: join_dirs_def)

lemma join_dirs_append: "join_dirs (xs @ ys) = join_dirs xs @ join_dirs ys"
  by (simp add: join_dirs_def)

lemma join_prefix:
  "list_all valid_name xs \<Longrightarrow> list_all valid_name ys \<Longrightarrow> valid_name n \<Longrightarrow>
     prefix (join_dirs xs) (join_dirs ys @ n) \<Longrightarrow> prefix xs ys"
proof (induction xs arbitrary: ys)
  case Nil
  show ?case by simp
next
  case (Cons a xs')
  note prems = Cons.prems
  show ?case
  proof (cases ys)
    assume e: "ys = []"
    from prems(4) have "prefix (a @ slash # join_dirs xs') n"
      unfolding e join_dirs_Cons join_dirs_Nil by simp
    then obtain z where "n = (a @ slash # join_dirs xs') @ z"
      unfolding prefix_def by blast
    then have "slash \<in> set n" by simp
    with prems(3) show ?thesis unfolding valid_name_def by blast
  next
    fix b ys'
    assume e: "ys = b # ys'"
    from prems(4) have p: "prefix (a @ slash # join_dirs xs') (b @ slash # (join_dirs ys' @ n))"
      unfolding e join_dirs_Cons by simp
    have va: "slash \<notin> set a" using prems(1) by (simp add: valid_name_def)
    have vb: "slash \<notin> set b" using prems(2) unfolding e by (simp add: valid_name_def)
    from sep_prefix [OF va vb p] have ab: "a = b" and q: "prefix (join_dirs xs') (join_dirs ys' @ n)"
      by blast+
    have x: "list_all valid_name xs'" using prems(1) by simp
    have y: "list_all valid_name ys'" using prems(2) unfolding e by simp
    from Cons.IH [OF x y prems(3) q] have "prefix xs' ys'" .
    with ab show ?thesis unfolding e by simp
  qed
qed

lemma replace_backslash_id: "backslash \<notin> set s \<Longrightarrow> replace_backslash s = s"
  unfolding replace_backslash_def by (induction s) auto

lemma join_dirs_no_backslash:
  "list_all valid_name ds \<Longrightarrow> backslash \<notin> set (join_dirs ds)"
proof (induction ds)
  case Nil
  show ?case by (simp add: join_dirs_Nil)
next
  case (Cons d ds)
  have "backslash \<noteq> slash" by (simp add: slash_def backslash_def)
  with Cons show ?case by (simp add: join_dirs_Cons valid_name_def)
qed

lemma path_str_valid:
  assumes "list_all valid_name ds" "valid_name n"
  shows "path_str ds n = join_dirs ds @ n"
proof -
  have "backslash \<notin> set (join_dirs ds @ n)"
    using join_dirs_no_backslash [OF assms(1)] assms(2) by (simp add: valid_name_def)
  then have "replace_backslash (join_dirs ds @ n) = join_dirs ds @ n"
    by (rule replace_backslash_id)
  then show ?thesis by (simp add: path_str_def join_dirs_def)
qed

lemma scan_files_origin:
  "r \<in> set (scan_files pats root es) \<Longrightarrow>
     \<exists>name c. File name (Content c) \<in> set es \<and> r = \<lparr>path = path_str root name, content = c\<rparr>
        \<and> \<not> is_ignored root name pats \<and> \<not> not_text_file name"
proof (induction pats root es rule: scan_files.induct)
  case (2 pats root n rd es)
  then show ?case
    by (auto simp: scan_file_def split: option.splits if_splits read_result.splits)
qed auto

lemma names_ok_file: "names_ok es \<Longrightarrow> File n rd \<in> set es \<Longrightarrow> valid_name n"
  by (induction es rule: names_ok.induct) auto

lemma unpruned_iff:
  "unpruned pats root ds \<longleftrightarrow> (\<forall>k < length ds. \<not> is_ignored (root @ take k ds) (ds ! k) pats)"
  by (auto simp: unpruned_def list_all_iff)

lemma unpruned_Cons:
  "\<not> is_ignored root d pats \<Longrightarrow> unpruned pats (root @ [d]) ds \<Longrightarrow> unpruned pats root (d # ds)"
  unfolding unpruned_iff
proof (intro allI impI)
  fix k
  assume a: "\<not> is_ignored root d pats"
    and b: "\<forall>k<length ds. \<not> is_ignored ((root @ [d]) @ take k ds) (ds ! k) pats"
    and c: "k < length (d # ds)"
  show "\<not> is_ignored (root @ take k (d # ds)) ((d # ds) ! k) pats"
  proof (cases k)
    case 0
    with a show ?thesis by simp
  next
    case (Suc j)
    with b c show ?thesis by simp
  qed
qed

lemma walk_subdirs_origin:
  "r \<in> set (walk_subdirs pats root es) \<Longrightarrow>
     \<exists>ds name c. ds \<noteq> [] \<and> r = \<lparr>path = path_str (root @ ds) name, content = c\<rparr>
        \<and> unpruned pats root ds
        \<and> \<not> is_ignored (root @ ds) name pats \<and> \<not> not_text_file name
        \<and> (names_ok es \<longrightarrow> list_all valid_name ds \<and> valid_name name)"
proof (induction pats root es rule: walk_subdirs.induct)
  case (1 pats root)
  then show ?case by simp
next
  case (2 pats root n rd es)
  then show ?case by auto
next
  case (3 pats root d sub es)
  from "3.prems" consider
      (files) "\<not> is_ignored root d pats" "r \<in> set (scan_files pats (root @ [d]) sub)"
    | (deeper) "\<not> is_ignored root d pats" "r \<in> set (walk_subdirs pats (root @ [d]) sub)"
    | (later) "r \<in> set (walk_subdirs pats root es)"
    by (auto split: if_splits)
  then show ?case
  proof cases
    case files
    then obtain name c where f: "File name (Content c) \<in> set sub"
        "r = \<lparr>path = path_str (root @ [d]) name, content = c\<rparr>"
        "\<not> is_ignored (root @ [d]) name pats" "\<not> not_text_file name"
      using scan_files_origin by blast
    have "unpruned pats root [d]"
      using files(1) by (simp add: unpruned_iff)
    moreover have "names_ok (Dir d sub # es) \<longrightarrow> list_all valid_name [d] \<and> valid_name name"
      using f(1) names_ok_file by auto
    ultimately show ?thesis
      using f by (intro exI [of _ "[d]"] exI [of _ name] exI [of _ c]) simp
  next
    case deeper
    with "3.IH"(1) obtain ds name c where g: "ds \<noteq> []"
        "r = \<lparr>path = path_str ((root @ [d]) @ ds) name, content = c\<rparr>"
        "unpruned pats (root @ [d]) ds"
        "\<not> is_ignored ((root @ [d]) @ ds) name pats" "\<not> not_text_file name"
        "names_ok sub \<longrightarrow> list_all valid_name ds \<and> valid_name name"
      by blast
    have "unpruned pats root (d # ds)"
      using deeper(1) g(3) by (rule unpruned_Cons)
    then show ?thesis
      using g by (intro exI [of _ "d # ds"] exI [of _ name] exI [of _ c]) simp
  next
    case later
    with "3.IH"(2) obtain ds name c where g: "ds \<noteq> []"
        "r = \<lparr>path = path_str (root @ ds) name, content = c\<rparr>"
        "unpruned pats root ds"
        "\<not> is_ignored (root @ ds) name pats" "\<not> not_text_file name"
        "names_ok es \<longrightarrow> list_all valid_name ds \<and> valid_name name"
      by blast
    then show ?thesis
      by (intro exI [of _ ds] exI [of _ name] exI [of _ c]) simp
  qed
qed

lemma walk_origin:
  assumes "r \<in> set (walk pats root es)"
  shows "\<exists>ds name c. r = \<lparr>path = path_str (root @ ds) name, content = c\<rparr>
        \<and> unpruned pats root ds
        \<and> \<not> is_ignored (root @ ds) name pats \<and> \<not> not_text_file name
        \<and> (names_ok es \<longrightarrow> list_all valid_name ds \<and> valid_name name)"
proof -
  from assms consider "r \<in> set (scan_files pats root es)" | "r \<in> set (walk_subdirs pats root es)"
    by (auto simp: walk_def)
  then show ?thesis
  proof cases
    case 1
    then obtain name c where f: "File name (Content c) \<in> set es"
        "r = \<lparr>path = path_str root name, content = c\<rparr>"
        "\<not> is_ignored root name pats" "\<not> not_text_file name"
      using scan_files_origin by blast
    then show ?thesis
      using names_ok_file
      by (intro exI [of _ "[]"] exI [of _ name] exI [of _ c]) (auto simp: unpruned_iff)
  next
    case 2
    then show ?thesis using walk_subdirs_origin by blast
  qed
qed

lemma walk_pruned_dir:
  assumes "is_ignored root d pats"
  shows "walk pats root (es1 @ Dir d sub # es2) = walk pats root (es1 @ es2)"
  using assms by (simp add: walk_def scan_files_append walk_subdirs_append)

lemma record_not_under_pruned:
  assumes r: "r \<in> set (walk pats [] es)" and ok: "names_ok es"
    and dp: "list_all valid_name dp" and dn: "valid_name dn"
    and ign: "is_ignored dp dn pats"
  shows "\<not> prefix (path_str dp dn @ [slash]) (path r)"
proof
  assume pre: "prefix (path_str dp dn @ [slash]) (path r)"
  from walk_origin [OF r] ok obtain ds name c where
      o: "r = \<lparr>path = path_str ([] @ ds) name, content = c\<rparr>" "unpruned pats [] ds"
        "list_all valid_name ds" "valid_name name"
    by blast
  have 1: "path r = join_dirs ds @ name"
    using o(1) path_str_valid [OF o(3) o(4)] by simp
  have 2: "path_str dp dn @ [slash] = join_dirs (dp @ [dn])"
    using path_str_valid [OF dp dn] by (simp add: join_dirs_append join_dirs_Cons join_dirs_Nil)
  have 3: "list_all valid_name (dp @ [dn])"
    using dp dn by simp
  from pre have "prefix (join_dirs (dp @ [dn])) (join_dirs ds @ name)"
    unfolding 1 2 .
  from join_prefix [OF 3 o(3) o(4) this] obtain rest where ds: "ds = dp @ dn # rest"
    unfolding prefix_def by auto
  have "length dp < length ds" unfolding ds by simp
  with o(2) have "\<not> is_ignored ([] @ take (length dp) ds) (ds ! length dp) pats"
    unfolding unpruned_iff by blast
  then have "\<not> is_ignored dp dn pats"
    unfolding ds by simp
  with ign show False by blast
qed

text \<open>
  Claim C2, as amended. Every record of the scan comes from a file that \<open>is_ignored\<close>
  and the extension test let through, below directories none of which is ignored. If
  no name in the tree holds a slash or a backslash, then for every ignored directory
  path (with such names) no record's path begins with that path followed by a slash.
  What lies inside an ignored directory has no influence on the scan.
\<close>

theorem pruned_subtree_not_scanned:
  assumes "r \<in> set (scan_codebase loaded es)"
  shows "(\<exists>ds name. path r = path_str ds name
            \<and> unpruned (loaded @ BUILTIN_IGNORED) [] ds
            \<and> \<not> is_ignored ds name (loaded @ BUILTIN_IGNORED)
            \<and> \<not> not_text_file name)
       \<and> (names_ok es \<longrightarrow>
            (\<forall>dp dn. list_all valid_name dp \<and> valid_name dn
                      \<and> is_ignored dp dn (loaded @ BUILTIN_IGNORED)
                 \<longrightarrow> \<not> prefix (path_str dp dn @ [slash]) (path r)))
       \<and> (is_ignored root d pats \<longrightarrow>
            walk pats root (es1 @ Dir d sub # es2) = walk pats root (es1 @ Dir d sub' # es2))"
proof (intro conjI)
  let ?P = "loaded @ BUILTIN_IGNORED"
  have r: "r \<in> set (walk ?P [] es)"
    using assms by (simp add: scan_codebase_def)
  from walk_origin [OF r] obtain ds name c where
      "r = \<lparr>path = path_str ([] @ ds) name, content = c\<rparr>" "unpruned ?P [] ds"
      "\<not> is_ignored ([] @ ds) name ?P" "\<not> not_text_file name"
    by blast
  then show "\<exists>ds name. path r = path_str ds name \<and> unpruned ?P [] ds
            \<and> \<not> is_ignored ds name ?P \<and> \<not> not_text_file name"
    by (intro exI [of _ ds] exI [of _ name]) simp
  show "names_ok es \<longrightarrow>
            (\<forall>dp dn. list_all valid_name dp \<and> valid_name dn \<and> is_ignored dp dn ?P
                 \<longrightarrow> \<not> prefix (path_str dp dn @ [slash]) (path r))"
    using record_not_under_pruned [OF r] by blast
  show "is_ignored root d pats \<longrightarrow>
            walk pats root (es1 @ Dir d sub # es2) = walk pats root (es1 @ Dir d sub' # es2)"
    by (simp add: walk_pruned_dir)
qed

lemmas eval_defs = scan_codebase_def walk_def scan_file_def is_ignored_def EXCLUDED_FILES_def
  BUILTIN_IGNORED_def path_str_def replace_backslash_def strip_slash_def slash_def backslash_def
  not_text_file_def path_suffix_def rfind_dot_def lower_def lower_char_def TEXT_EXTENSIONS_def

lemma demo_scan:
  "scan_codebase [] demo_tree =
     [\<lparr>path = ''app.py'', content = ''print(1)''\<rparr>, \<lparr>path = ''src/m.py'', content = ''z''\<rparr>]"
  by (simp add: demo_tree_def eval_defs)

lemma demo_names_ok: "names_ok demo_tree"
  by (simp add: demo_tree_def valid_name_def slash_def backslash_def)

lemma demo_pruned: "is_ignored [] ''node_modules'' ([] @ BUILTIN_IGNORED)"
  by (simp add: eval_defs)

theorem pruned_subtree_not_scanned_witness:
  "\<lparr>path = ''src/m.py'', content = ''z''\<rparr> \<in> set (scan_codebase [] demo_tree)
   \<and> names_ok demo_tree
   \<and> list_all valid_name [] \<and> valid_name ''node_modules''
   \<and> is_ignored [] ''node_modules'' ([] @ BUILTIN_IGNORED)
   \<and> \<not> prefix (path_str [] ''node_modules'' @ [slash]) ''src/m.py''
   \<and> walk BUILTIN_IGNORED [] ([] @ Dir ''node_modules'' [File ''x.js'' (Content ''y'')] # [])
       = walk BUILTIN_IGNORED [] ([] @ Dir ''node_modules'' [] # [])"
proof -
  have m: "\<lparr>path = ''src/m.py'', content = ''z''\<rparr> \<in> set (scan_codebase [] demo_tree)"
    by (simp add: demo_scan)
  have v: "list_all valid_name [] \<and> valid_name ''node_modules''"
    by (simp add: valid_name_def slash_def backslash_def)
  have i: "is_ignored [] ''node_modules'' BUILTIN_IGNORED"
    using demo_pruned by simp
  show ?thesis
    using m v demo_names_ok demo_pruned
      pruned_subtree_not_scanned [OF m, of "[]" "''node_modules''" BUILTIN_IGNORED "[]"
        "[File ''x.js'' (Content ''y'')]" "[]" "[]"] i
    by simp
qed

text \<open>
  Claim C2 as stated fails where a name holds a backslash: the directory \<open>.env\<close> is
  pruned, its sibling named \<open>.env\cfg\<close> is not, and the file \<open>b.py\<close> in the sibling is
  recorded under the normalised path \<open>.env/cfg/b.py\<close>, which begins with \<open>.env/\<close>.
\<close>

theorem pruned_prefix_counterexample:
  "is_ignored [] ''.env'' ([] @ BUILTIN_IGNORED)
   \<and> \<lparr>path = ''.env/cfg/b.py'', content = ''y''\<rparr> \<in> set (scan_codebase [] backslash_tree)
   \<and> prefix (path_str [] ''.env'' @ [slash]) (path \<lparr>path = ''.env/cfg/b.py'', content = ''y''\<rparr>)"
  by (simp add: backslash_tree_def eval_defs)

section \<open>Context assembler\<close>

lemma format_record_header: "format_record r = header (path r) @ content r @ [newline]"
  by (simp add: format_record_def header_def FILE_MARK_def)

lemma build_context_Cons: "build_context (r # rs) = format_record r @ ctx_tail rs"
  by (cases rs) (simp_all add: build_context_def ctx_tail_def)

lemma build_context_Nil: "build_context [] = []"
  by (simp add: build_context_def)

lemma newline_notin_mark: "newline \<notin> set FILE_MARK"
  by (simp add: FILE_MARK_def newline_def)

lemma build_context_starts: "\<exists>t. build_context (r # rs) = FILE_MARK @ t"
  by (simp add: build_context_Cons format_record_header header_def)

lemma mark_not_Nil: "FILE_MARK @ t \<noteq> []"
  by (simp add: FILE_MARK_def)

lemma ctx_tail_shape: "ctx_tail rs = [] \<or> (\<exists>t. ctx_tail rs = newline # FILE_MARK @ t)"
proof (cases rs)
  case Nil
  then show ?thesis by (simp add: ctx_tail_def)
next
  case (Cons r rs')
  then show ?thesis using build_context_starts [of r rs'] by (auto simp: ctx_tail_def)
qed

lemma split_at_first:
  "x \<notin> set a \<Longrightarrow> x \<notin> set b \<Longrightarrow> a @ x # u = b @ x # v \<Longrightarrow> a = b \<and> u = v"
proof (induction a arbitrary: b)
  case Nil
  then show ?case by (cases b) auto
next
  case (Cons c a)
  then show ?case by (cases b) auto
qed

lemma header_inj:
  assumes "newline \<notin> set p" "newline \<notin> set p'" "header p @ u = header p' @ v"
  shows "p = p' \<and> u = v"
proof -
  have n: "newline \<notin> set (p @ '' ---'')" "newline \<notin> set (p' @ '' ---'')"
    using assms(1,2) by (simp_all add: newline_def)
  from assms(3) have "(p @ '' ---'') @ newline # u = (p' @ '' ---'') @ newline # v"
    by (simp add: header_def)
  from split_at_first [OF n this] show ?thesis by simp
qed

lemma content_step:
  assumes eq: "u @ newline # t = newline # t'"
    and t: "t = [] \<or> (\<exists>w. t = newline # FILE_MARK @ w)"
    and t': "t' = [] \<or> (\<exists>w. t' = newline # FILE_MARK @ w)"
    and clean: "\<not> str_contains (newline # FILE_MARK) (c @ u)"
  shows "u = []"
proof (rule ccontr)
  assume "u \<noteq> []"
  with eq obtain u1 where u: "u = newline # u1" and e1: "u1 @ newline # t = t'"
    by (cases u) auto
  from e1 t' obtain w' where t'w: "t' = newline # FILE_MARK @ w'"
    by (cases u1) auto
  have "u1 \<noteq> []"
  proof
    assume "u1 = []"
    with e1 t'w have "t = FILE_MARK @ w'" by simp
    with t show False by (auto simp: FILE_MARK_def newline_def)
  qed
  with e1 t'w obtain u2 where u1: "u1 = newline # u2" and e2: "u2 @ newline # t = FILE_MARK @ w'"
    by (cases u1) auto
  from e2 obtain z where "(u2 = FILE_MARK @ z \<and> z @ newline # t = w') \<or> (u2 @ z = FILE_MARK \<and> newline # t = z @ w')"
    by (auto simp: append_eq_append_conv2)
  then have "\<exists>z. u2 = FILE_MARK @ z"
  proof
    assume "u2 = FILE_MARK @ z \<and> z @ newline # t = w'"
    then show ?thesis by blast
  next
    assume a: "u2 @ z = FILE_MARK \<and> newline # t = z @ w'"
    show ?thesis
    proof (cases z)
      case Nil
      with a show ?thesis by simp
    next
      case (Cons y z')
      with a have "y = newline" by simp
      with a Cons have "newline \<in> set FILE_MARK"
        by (metis in_set_conv_decomp)
      with newline_notin_mark show ?thesis by blast
    qed
  qed
  then obtain z where "u2 = FILE_MARK @ z" ..
  then have "c @ u = (c @ [newline]) @ (newline # FILE_MARK) @ z"
    using u u1 by simp
  then have "str_contains (newline # FILE_MARK) (c @ u)"
    unfolding str_contains_iff by blast
  with clean show False by blast
qed

lemma content_inj:
  assumes eq: "c @ newline # t = c' @ newline # t'"
    and t: "t = [] \<or> (\<exists>w. t = newline # FILE_MARK @ w)"
    and t': "t' = [] \<or> (\<exists>w. t' = newline # FILE_MARK @ w)"
    and c: "\<not> str_contains (newline # FILE_MARK) c"
    and c': "\<not> str_contains (newline # FILE_MARK) c'"
  shows "c = c' \<and> t = t'"
proof -
  from eq obtain u where "(c = c' @ u \<and> u @ newline # t = newline # t')
       \<or> (c @ u = c' \<and> newline # t = u @ newline # t')"
    by (auto simp: append_eq_append_conv2)
  then show ?thesis
  proof
    assume a: "c = c' @ u \<and> u @ newline # t = newline # t'"
    with c have "\<not> str_contains (newline # FILE_MARK) (c' @ u)" by simp
    from content_step [OF _ t t' this] a have "u = []" by blast
    with a show ?thesis by simp
  next
    assume a: "c @ u = c' \<and> newline # t = u @ newline # t'"
    with c' have "\<not> str_contains (newline # FILE_MARK) (c @ u)" by simp
    from content_step [OF _ t' t this] a have "u = []" by metis
    with a show ?thesis by simp
  qed
qed

lemma ctx_tail_inj: "ctx_tail rs = ctx_tail rs' \<Longrightarrow> build_context rs = build_context rs'"
  by (auto simp: ctx_tail_def build_context_Nil split: if_splits)

lemma build_context_inj:
  "list_all clean_record xs \<Longrightarrow> list_all clean_record ys \<Longrightarrow>
     build_context xs = build_context ys \<Longrightarrow> xs = ys"
proof (induction xs arbitrary: ys)
  case Nil
  show ?case
  proof (cases ys)
    case Nil
    then show ?thesis by simp
  next
    case (Cons r rs)
    with Nil.prems(3) build_context_starts [of r rs] mark_not_Nil show ?thesis
      by (metis build_context_Nil)
  qed
next
  case (Cons x xs')
  show ?case
  proof (cases ys)
    case Nil
    with Cons.prems(3) build_context_starts [of x xs'] mark_not_Nil show ?thesis
      by (metis build_context_Nil)
  next
    case ys: (Cons y ys')
    have cx: "clean_record x" and cy: "clean_record y"
      using Cons.prems(1,2) ys by simp_all
    from Cons.prems(3) have e:
      "header (path x) @ (content x @ newline # ctx_tail xs') =
       header (path y) @ (content y @ newline # ctx_tail ys')"
      unfolding ys build_context_Cons format_record_header by simp
    from header_inj [OF _ _ e] cx cy
    have p: "path x = path y"
      and e2: "content x @ newline # ctx_tail xs' = content y @ newline # ctx_tail ys'"
      by (simp_all add: clean_record_def)
    from content_inj [OF e2 ctx_tail_shape ctx_tail_shape] cx cy
    have c: "content x = content y" and t: "ctx_tail xs' = ctx_tail ys'"
      by (simp_all add: clean_record_def)
    have "xs' = ys'"
      using Cons.IH [of ys'] Cons.prems(1,2) ys ctx_tail_inj [OF t] by simp
    moreover have "x = y" using p c by simp
    ultimately show ?thesis using ys by simp
  qed
qed

text \<open>
  Claim C6, as amended. \<open>build_context\<close> emits, for each record in order, the delimiter
  line of its path, its whole content and a newline, with one more newline between
  consecutive records; nothing is cut or dropped. On lists of records whose paths hold
  no newline and whose contents hold no newline directly followed by \<open>--- FILE: \<close>, it
  is injective: the context determines the sequence of path and content pairs.
\<close>

theorem context_assembly_lossless:
  "build_context [] = []
   \<and> build_context (r # rs) =
       ''--- FILE: '' @ path r @ '' ---'' @ [newline] @ content r @ [newline]
         @ (if rs = [] then [] else newline # build_context rs)
   \<and> (list_all clean_record xs \<and> list_all clean_record ys \<and> build_context xs = build_context ys
        \<longrightarrow> xs = ys)"
  using build_context_inj [of xs ys]
  by (auto simp: build_context_Nil build_context_Cons format_record_def ctx_tail_def)

theorem context_assembly_lossless_witness:
  "list_all clean_record [\<lparr>path = ''a.py'', content = ''x''\<rparr>, \<lparr>path = ''b.py'', content = ''--- y''\<rparr>]
   \<and> list_all clean_record [\<lparr>path = ''b.py'', content = ''--- y''\<rparr>, \<lparr>path = ''a.py'', content = ''x''\<rparr>]
   \<and> build_context [\<lparr>path = ''a.py'', content = ''x''\<rparr>, \<lparr>path = ''b.py'', content = ''--- y''\<rparr>]
     \<noteq> build_context [\<lparr>path = ''b.py'', content = ''--- y''\<rparr>, \<lparr>path = ''a.py'', content = ''x''\<rparr>]"
proof -
  have a: "list_all clean_record [\<lparr>path = ''a.py'', content = ''x''\<rparr>, \<lparr>path = ''b.py'', content = ''--- y''\<rparr>]"
    by (simp add: clean_record_def newline_def FILE_MARK_def)
  have b: "list_all clean_record [\<lparr>path = ''b.py'', content = ''--- y''\<rparr>, \<lparr>path = ''a.py'', content = ''x''\<rparr>]"
    by (simp add: clean_record_def newline_def FILE_MARK_def)
  show ?thesis
    using a b
      context_assembly_lossless [of "\<lparr>path = ''a.py'', content = ''x''\<rparr>" "[]"
        "[\<lparr>path = ''a.py'', content = ''x''\<rparr>, \<lparr>path = ''b.py'', content = ''--- y''\<rparr>]"
        "[\<lparr>path = ''b.py'', content = ''--- y''\<rparr>, \<lparr>path = ''a.py'', content = ''x''\<rparr>]"]
    by auto
qed

text \<open>
  Claim C6 as stated fails: a single file whose content holds a blank line followed by
  a delimiter line gives the same context as two files, so no splitting can recover
  the records from it.
\<close>

theorem context_assembly_counterexample:
  "build_context [\<lparr>path = ''a'', content = ''x'' @ [newline, newline] @ ''--- FILE: b ---'' @ [newline] @ ''y''\<rparr>]
     = build_context [\<lparr>path = ''a'', content = ''x''\<rparr>, \<lparr>path = ''b'', content = ''y''\<rparr>]
   \<and> [\<lparr>path = ''a'', content = ''x'' @ [newline, newline] @ ''--- FILE: b ---'' @ [newline] @ ''y''\<rparr>]
     \<noteq> [\<lparr>path = ''a'', content = ''x''\<rparr>, \<lparr>path = ''b'', content = ''y''\<rparr>]"
  by (simp add: build_context_def format_record_def)

section \<open>Generation orchestrator\<close>

lemma outcome_0: "outcome be sent (m # ms) 0 = be sent m"
  by (simp add: outcome_def)

lemma outcome_Suc: "outcome be sent (m # ms) (Suc i) = outcome be (sent @ [m]) ms i"
  by (simp add: outcome_def)

lemma all_fail_Cons:
  "(\<forall>i<length (m # ms). \<not> succeeds (outcome be sent (m # ms) i)) \<longleftrightarrow>
     \<not> succeeds (be sent m) \<and> (\<forall>i<length ms. \<not> succeeds (outcome be (sent @ [m]) ms i))"
  by (simp add: All_less_Suc2 outcome_0 outcome_Suc)

lemma try_models_all_fail:
  "(\<forall>i<length ms. \<not> succeeds (outcome be sent ms i)) \<Longrightarrow>
     try_models be sent before ms =
       (sent @ ms, Inl (GenerationError (last_captured before (captured_errors be sent ms))))"
proof (induction ms arbitrary: sent before)
  case Nil
  show ?case by (simp add: last_captured_def)
next
  case (Cons m ms)
  from Cons.prems have f: "\<not> succeeds (be sent m)"
    and r: "\<forall>i<length ms. \<not> succeeds (outcome be (sent @ [m]) ms i)"
    unfolding all_fail_Cons by blast+
  show ?case
  proof (cases "be sent m")
    case (Raises e)
    then show ?thesis
      using Cons.IH [OF r, of "Some e"] by (simp add: last_captured_def)
  next
    case (Response t)
    with f have "\<not> truthy t" by (simp add: succeeds_def)
    with Response show ?thesis
      using Cons.IH [OF r, of before] by (simp add: last_captured_def)
  qed
qed

lemma try_models_first_success:
  "k < length ms \<Longrightarrow> (\<forall>i<k. \<not> succeeds (outcome be sent ms i)) \<Longrightarrow>
     succeeds (outcome be sent ms k) \<Longrightarrow>
     try_models be sent before ms =
       (sent @ take (Suc k) ms, Inr (strip (response_text (outcome be sent ms k))))"
proof (induction ms arbitrary: sent before k)
  case Nil
  then show ?case by simp
next
  case (Cons m ms)
  show ?case
  proof (cases k)
    case 0
    with Cons.prems(3) have s: "succeeds (be sent m)" by (simp add: outcome_0)
    then obtain t where t: "be sent m = Response t" "truthy t"
      by (auto simp: succeeds_def split: response.splits)
    then show ?thesis
      using 0 by (simp add: outcome_0 response_text_def split: option.splits)
  next
    case (Suc j)
    from Cons.prems(2) Suc have f: "\<not> succeeds (be sent m)"
      using outcome_0 by (metis zero_less_Suc)
    have j: "j < length ms" using Cons.prems(1) Suc by simp
    have a: "\<forall>i<j. \<not> succeeds (outcome be (sent @ [m]) ms i)"
      using Cons.prems(2) Suc outcome_Suc by (metis Suc_less_eq)
    have b: "succeeds (outcome be (sent @ [m]) ms j)"
      using Cons.prems(3) Suc by (simp add: outcome_Suc)
    note ih = Cons.IH [OF j a b]
    show ?thesis
    proof (cases "be sent m")
      case (Raises e)
      then show ?thesis using ih [of "Some e"] Suc by (simp add: outcome_Suc)
    next
      case (Response t)
      with f have "\<not> truthy t" by (simp add: succeeds_def)
      with Response show ?thesis using ih [of before] Suc by (simp add: outcome_Suc)
    qed
  qed
qed

lemma try_models_fatal_iff:
  "(\<exists>err. snd (try_models be sent before ms) = Inl err) \<longleftrightarrow>
     (\<forall>i<length ms. \<not> succeeds (outcome be sent ms i))"
proof (induction ms arbitrary: sent before)
  case Nil
  show ?case by simp
next
  case (Cons m ms)
  show ?case
  proof (cases "be sent m")
    case (Raises e)
    then show ?thesis
      using Cons.IH [of "sent @ [m]" "Some e"] unfolding all_fail_Cons
      by (simp add: succeeds_def)
  next
    case (Response t)
    then show ?thesis
      using Cons.IH [of "sent @ [m]" before] unfolding all_fail_Cons
      by (simp add: succeeds_def)
  qed
qed

lemma try_models_requests:
  "\<exists>j \<le> length ms. fst (try_models be sent before ms) = sent @ take j ms"
proof (induction ms arbitrary: sent before)
  case Nil
  show ?case by simp
next
  case (Cons m ms)
  show ?case
  proof (cases "be sent m")
    case (Raises e)
    from Cons.IH [of "sent @ [m]" "Some e"] obtain j where
      "j \<le> length ms" "fst (try_models be (sent @ [m]) (Some e) ms) = (sent @ [m]) @ take j ms"
      by blast
    with Raises show ?thesis
      by (intro exI [of _ "Suc j"]) simp
  next
    case (Response t)
    show ?thesis
    proof (cases "truthy t")
      case True
      with Response show ?thesis by (intro exI [of _ "Suc 0"]) simp
    next
      case False
      from Cons.IH [of "sent @ [m]" before] obtain j where
        "j \<le> length ms" "fst (try_models be (sent @ [m]) before ms) = (sent @ [m]) @ take j ms"
        by blast
      with Response False show ?thesis
        by (intro exI [of _ "Suc j"]) simp
    qed
  qed
qed

lemma generate_with_key:
  "snd (get_api_key env chain) = Inr key \<Longrightarrow>
     generate_documentation env chain be mn = try_models be [] None (models_to_try mn)"
  by (simp add: generate_documentation_def)

lemma two_models:
  assumes "\<not> succeeds (be [] A)" "be [A] B = Response (Some s)" "s \<noteq> []"
  shows "try_models be [] None [A, B] = ([A, B], Inr (strip s))"
proof -
  have 1: "(1::nat) < length [A, B]" by simp
  have 2: "\<forall>i<1. \<not> succeeds (outcome be [] [A, B] i)"
    using assms(1) by (simp add: outcome_def)
  have 3: "succeeds (outcome be [] [A, B] 1)"
    using assms(2,3) by (simp add: outcome_def succeeds_def truthy_def)
  from try_models_first_success [OF 1 2 3, of None] show ?thesis
    using assms(2) by (simp add: outcome_def response_text_def)
qed

text \<open>
  Claim C5, as amended. The candidates are the explicit model alone when a non-empty one
  is given, else the primary and the fallback model in that order. The requests sent
  are an initial segment of the candidate list, one request per candidate and in
  order. At the first candidate whose response has non-empty text the loop stops; the
  requests are the candidates up to that one, and the result is that text with leading
  and trailing white space removed. For \<open>[A, B]\<close> where \<open>A\<close> fails and \<open>B\<close> succeeds the
  requests are \<open>[A, B]\<close> and the result is the stripped text of \<open>B\<close>.
\<close>

theorem fallback_ordered_short_circuit:
  "models_to_try None = [PRIMARY_MODEL, FALLBACK_MODEL]
   \<and> models_to_try (Some m) = (if m = [] then [PRIMARY_MODEL, FALLBACK_MODEL] else [m])
   \<and> (\<exists>j \<le> length ms. fst (try_models be [] None ms) = take j ms)
   \<and> (k < length ms \<and> (\<forall>i<k. \<not> succeeds (outcome be [] ms i)) \<and> succeeds (outcome be [] ms k)
        \<longrightarrow> try_models be [] None ms
              = (take (Suc k) ms, Inr (strip (response_text (outcome be [] ms k)))))
   \<and> (\<not> succeeds (be [] A) \<and> be [A] B = Response (Some s) \<and> s \<noteq> []
        \<longrightarrow> try_models be [] None [A, B] = ([A, B], Inr (strip s)))
   \<and> (snd (get_api_key env chain) = Inr key
        \<longrightarrow> generate_documentation env chain be mn = try_models be [] None (models_to_try mn))"
proof (intro conjI)
  show "models_to_try None = [PRIMARY_MODEL, FALLBACK_MODEL]"
    by (simp add: models_to_try_def truthy_def)
  show "models_to_try (Some m) = (if m = [] then [PRIMARY_MODEL, FALLBACK_MODEL] else [m])"
    by (simp add: models_to_try_def truthy_def)
  show "\<exists>j \<le> length ms. fst (try_models be [] None ms) = take j ms"
    using try_models_requests [of ms be "[]" None] by simp
  show "k < length ms \<and> (\<forall>i<k. \<not> succeeds (outcome be [] ms i)) \<and> succeeds (outcome be [] ms k)
        \<longrightarrow> try_models be [] None ms
              = (take (Suc k) ms, Inr (strip (response_text (outcome be [] ms k))))"
    using try_models_first_success [of k ms be "[]" None] by simp
  show "\<not> succeeds (be [] A) \<and> be [A] B = Response (Some s) \<and> s \<noteq> []
        \<longrightarrow> try_models be [] None [A, B] = ([A, B], Inr (strip s))"
    using two_models by blast
  show "snd (get_api_key env chain) = Inr key
        \<longrightarrow> generate_documentation env chain be mn = try_models be [] None (models_to_try mn)"
    using generate_with_key by blast
qed

lemma strip_guide:
  "strip [CHR ''G'', CHR ''u'', CHR ''i'', CHR ''d'', CHR ''e'', newline] = ''Guide''"
  by (simp add: strip_def is_space_def newline_def)

lemma key_from_env: "snd (get_api_key (Some ''k'') []) = Inr ''k''"
  by (simp add: get_api_key_def truthy_def)

theorem fallback_ordered_short_circuit_witness:
  "\<not> succeeds (demo_backend [] ''A'')
   \<and> demo_backend [''A''] ''B'' = Response (Some (''Guide'' @ [newline]))
   \<and> ''Guide'' @ [newline] \<noteq> []
   \<and> try_models demo_backend [] None [''A'', ''B''] = ([''A'', ''B''], Inr ''Guide'')
   \<and> snd (get_api_key (Some ''k'') []) = Inr ''k''
   \<and> generate_documentation (Some ''k'') [] demo_backend (Some ''A'')
       = try_models demo_backend [] None [''A'']"
proof -
  have a: "\<not> succeeds (demo_backend [] ''A'')"
    by (simp add: demo_backend_def succeeds_def)
  have b: "demo_backend [''A''] ''B'' = Response (Some (''Guide'' @ [newline]))"
    by (simp add: demo_backend_def)
  show ?thesis
    using a b key_from_env
      fallback_ordered_short_circuit [of "''A''" "[]" demo_backend 0 "''A''" "''B''"
        "''Guide'' @ [newline]" "Some ''k''" "[]" "''k''" "Some ''A''"]
    by (simp add: strip_guide)
qed

text \<open>
  Claim C5 as stated fails on the returned text: the backend answers \<open>Guide\<close> followed by
  a newline, and \<open>generate_documentation\<close> returns \<open>Guide\<close>.
\<close>

theorem returned_text_counterexample:
  "demo_backend [] ''B'' = Response (Some (''Guide'' @ [newline]))
   \<and> generate_documentation (Some ''k'') [] demo_backend (Some ''B'') = ([''B''], Inr ''Guide'')
   \<and> ''Guide'' \<noteq> ''Guide'' @ [newline]"
  by (simp add: generate_documentation_def key_from_env models_to_try_def truthy_def
      demo_backend_def strip_guide)

lemma main_fatal:
  "snd (generate_documentation env chain be mn) = Inl err \<Longrightarrow>
     main root_exists loaded es env chain be mn = \<lparr>exit_code = 1, output_file = None\<rparr>"
  by (simp add: main_def Let_def)

lemma generation_error_iff:
  assumes "snd (get_api_key env chain) = Inr key"
  shows "(\<exists>e. snd (generate_documentation env chain be mn) = Inl (GenerationError e)) \<longleftrightarrow>
         (\<forall>i<length (models_to_try mn). \<not> succeeds (outcome be [] (models_to_try mn) i))"
proof
  assume "\<exists>e. snd (generate_documentation env chain be mn) = Inl (GenerationError e)"
  then have "\<exists>err. snd (try_models be [] None (models_to_try mn)) = Inl err"
    using generate_with_key [OF assms] by auto
  then show "\<forall>i<length (models_to_try mn). \<not> succeeds (outcome be [] (models_to_try mn) i)"
    using try_models_fatal_iff by blast
next
  assume "\<forall>i<length (models_to_try mn). \<not> succeeds (outcome be [] (models_to_try mn) i)"
  from try_models_all_fail [OF this, of None]
  show "\<exists>e. snd (generate_documentation env chain be mn) = Inl (GenerationError e)"
    using generate_with_key [OF assms] by simp
qed

text \<open>
  Claim C7. If every candidate raises or returns no text, the loop has asked every
  candidate once and ends in the fatal generation error carrying the last error raised,
  if any; the loop is fatal exactly when no candidate returns non-empty text. Whenever
  \<open>generate_documentation\<close> is fatal, \<open>main\<close> exits with status 1 and writes no output.
  With a credential at hand, the fatal error of \<open>generate_documentation\<close> is the
  generation error exactly when no candidate returns non-empty text.
\<close>

theorem all_candidates_fail_fatal:
  "((\<forall>i<length ms. \<not> succeeds (outcome be [] ms i)) \<longrightarrow>
       try_models be [] None ms
         = (ms, Inl (GenerationError (last_captured None (captured_errors be [] ms)))))
   \<and> ((\<exists>err. snd (try_models be [] None ms) = Inl err) \<longleftrightarrow>
        (\<forall>i<length ms. \<not> succeeds (outcome be [] ms i)))
   \<and> (snd (generate_documentation env chain be mn) = Inl err \<longrightarrow>
        main root_exists loaded es env chain be mn = \<lparr>exit_code = 1, output_file = None\<rparr>)
   \<and> (snd (get_api_key env chain) = Inr key \<longrightarrow>
        ((\<exists>e. snd (generate_documentation env chain be mn) = Inl (GenerationError e)) \<longleftrightarrow>
         (\<forall>i<length (models_to_try mn). \<not> succeeds (outcome be [] (models_to_try mn) i))))"
proof (intro conjI)
  show "(\<forall>i<length ms. \<not> succeeds (outcome be [] ms i)) \<longrightarrow>
       try_models be [] None ms
         = (ms, Inl (GenerationError (last_captured None (captured_errors be [] ms))))"
    using try_models_all_fail [of ms be "[]" None] by simp
  show "(\<exists>err. snd (try_models be [] None ms) = Inl err) \<longleftrightarrow>
        (\<forall>i<length ms. \<not> succeeds (outcome be [] ms i))"
    by (rule try_models_fatal_iff)
  show "snd (generate_documentation env chain be mn) = Inl err \<longrightarrow>
        main root_exists loaded es env chain be mn = \<lparr>exit_code = 1, output_file = None\<rparr>"
    using main_fatal by blast
  show "snd (get_api_key env chain) = Inr key \<longrightarrow>
        ((\<exists>e. snd (generate_documentation env chain be mn) = Inl (GenerationError e)) \<longleftrightarrow>
         (\<forall>i<length (models_to_try mn). \<not> succeeds (outcome be [] (models_to_try mn) i)))"
    using generation_error_iff by blast
qed

lemma models_distinct: "PRIMARY_MODEL \<noteq> FALLBACK_MODEL"
  by (simp add: PRIMARY_MODEL_def FALLBACK_MODEL_def)

lemma failing_outcomes:
  "\<not> succeeds (outcome failing_backend [] [PRIMARY_MODEL, FALLBACK_MODEL] 0)"
  "\<not> succeeds (outcome failing_backend [] [PRIMARY_MODEL, FALLBACK_MODEL] (Suc 0))"
  using models_distinct
  by (auto simp: outcome_def failing_backend_def succeeds_def truthy_def)

lemma failing_all:
  "\<forall>i<length [PRIMARY_MODEL, FALLBACK_MODEL].
      \<not> succeeds (outcome failing_backend [] [PRIMARY_MODEL, FALLBACK_MODEL] i)"
  using failing_outcomes by (simp add: All_less_Suc)

lemma failing_errors:
  "last_captured None (captured_errors failing_backend [] [PRIMARY_MODEL, FALLBACK_MODEL]) = Some ''quota''"
  using models_distinct by (auto simp: last_captured_def failing_backend_def)

theorem all_candidates_fail_fatal_witness:
  "try_models failing_backend [] None [PRIMARY_MODEL, FALLBACK_MODEL]
     = ([PRIMARY_MODEL, FALLBACK_MODEL], Inl (GenerationError (Some ''quota'')))
   \<and> snd (get_api_key (Some ''k'') []) = Inr ''k''
   \<and> snd (generate_documentation (Some ''k'') [] failing_backend None)
       = Inl (GenerationError (Some ''quota''))
   \<and> main True [] demo_tree (Some ''k'') [] failing_backend None
       = \<lparr>exit_code = 1, output_file = None\<rparr>"
proof -
  have m: "models_to_try None = [PRIMARY_MODEL, FALLBACK_MODEL]"
    by (simp add: models_to_try_def truthy_def)
  note t = all_candidates_fail_fatal [of "[PRIMARY_MODEL, FALLBACK_MODEL]" failing_backend
      "Some ''k''" "[]" None "GenerationError (Some ''quota'')" True "[]" demo_tree "''k''"]
  from t failing_all
  have 1: "try_models failing_backend [] None [PRIMARY_MODEL, FALLBACK_MODEL]
     = ([PRIMARY_MODEL, FALLBACK_MODEL], Inl (GenerationError (Some ''quota'')))"
    unfolding failing_errors by blast
  have 2: "snd (generate_documentation (Some ''k'') [] failing_backend None)
       = Inl (GenerationError (Some ''quota''))"
    using 1 generate_with_key [OF key_from_env, of failing_backend None] m by simp
  from t 2 have 3: "main True [] demo_tree (Some ''k'') [] failing_backend None
       = \<lparr>exit_code = 1, output_file = None\<rparr>"
    by blast
  from 1 2 3 key_from_env show ?thesis by blast
qed

section \<open>Credential resolver\<close>

lemmas cred_defs = get_api_key_def truthy_def load_env_file_def try_env_file_def
  match_line_def KEY_NAME_def group_or_def strip_def is_space_def is_quote_def

lemma match_quoted_empty: "match_line quoted_empty_line = Some (Some [], None)"
  by (simp add: quoted_empty_line_def match_line_def KEY_NAME_def is_space_def is_quote_def)

lemma strip_quoted_empty: "strip quoted_empty_line = quoted_empty_line"
  by (simp add: quoted_empty_line_def strip_def is_space_def)

lemma scan_quoted_empty: "scan_lines [quoted_empty_line, ''GEMINI_API_KEY=abc''] = RaisedTypeError"
proof -
  have "quoted_empty_line \<noteq> []" "\<not> startswith quoted_empty_line ''#''"
    by (simp_all add: quoted_empty_line_def)
  then show ?thesis
    by (simp add: strip_quoted_empty match_quoted_empty group_or_def)
qed

lemma scan_xyz: "scan_lines [''GEMINI_API_KEY=xyz''] = SetKey ''xyz''"
  by (simp add: cred_defs)

lemma scan_unquoted_empty: "scan_lines [''GEMINI_API_KEY='', ''GEMINI_API_KEY=abc''] = SetKey []"
  by (simp add: cred_defs)

lemma six: "(6::nat) = Suc (Suc (Suc (Suc (Suc (Suc 0)))))"
  by simp

text \<open>
  Claim C9, evaluated where it fails. With the variable unset, the first line of the
  nearest \<open>.env\<close> file assigns the key a quoted empty value: group 1 is empty, group 2
  is absent, the assignment to the environment raises, the handler swallows the
  exception and the rest of that file is abandoned; the key of the parent directory is
  returned although the nearest file assigns \<open>abc\<close> on its second line. With the same
  value unquoted the search does stop at the nearest file.
\<close>

theorem quoted_empty_value_abandons_file:
  "get_api_key None env_chain = (Some ''xyz'', Inr ''xyz'')
   \<and> get_api_key None env_chain_unquoted = (Some [], Inl ConfigurationError)"
  by (simp del: scan_lines.simps
      add: get_api_key_def truthy_def load_env_file_def try_env_file_def six
      env_chain_def env_chain_unquoted_def scan_quoted_empty scan_xyz scan_unquoted_empty)

text \<open>
  What does hold of the resolver: it returns a non-empty key or exits with the
  configuration error, a non-empty environment variable is returned without reading
  any file, and only the first six directories of the chain are looked at.
\<close>

lemma get_api_key_nonempty: "snd (get_api_key env chain) = Inr k \<Longrightarrow> k \<noteq> []"
  by (auto simp: get_api_key_def Let_def split: option.splits if_splits)

lemma get_api_key_env_first:
  "env = Some k \<Longrightarrow> k \<noteq> [] \<Longrightarrow> get_api_key env chain = (Some k, Inr k)"
  by (simp add: get_api_key_def truthy_def)

lemma get_api_key_total:
  "snd (get_api_key env chain) = Inl ConfigurationError \<or> (\<exists>k. k \<noteq> [] \<and> snd (get_api_key env chain) = Inr k)"
  by (auto simp: get_api_key_def Let_def split: option.splits if_splits)

lemma search_env_take: "search_env n chain = search_env n (take n chain)"
proof (induction n chain rule: search_env.induct)
  case (3 n d ds)
  then show ?case by (cases n) (auto split: option.splits)
qed simp_all

lemma search_env_first_six: "load_env_file env chain = load_env_file env (take 6 chain)"
  using search_env_take [of 6 chain] by (simp add: load_env_file_def)

end
